theory Spec2Isabelle
  imports Main
begin

section \<open>The CSV-like reader of \<open>conferatur/csv.py\<close>\<close>

text \<open>
  The module reads a character stream one character at a time and drives a six-mode
  state machine. A dialect is a Python class whose attributes are strings or \<open>None\<close>;
  a line is a list of fields that carries a \<open>lineno\<close>. The generator \<open>Reader.__iter__\<close>
  is modelled by the list of lines it yields together with the exception that ends the
  iteration, if any: lines yielded before a raise have already reached the caller.
  Characters are \<^typ>\<open>char\<close>; the debug printing of the source has no effect on the
  result and is left out.
\<close>

subsection \<open>Characters\<close>

abbreviation NL :: char where "NL \<equiv> CHR 0x0A"
abbreviation CR :: char where "CR \<equiv> CHR 0x0D"
abbreviation TAB :: char where "TAB \<equiv> CHR 0x09"
abbreviation DQ :: char where "DQ \<equiv> CHR 0x22"

subsection \<open>Errors\<close>

text \<open>
  \<open>CSVParserError\<close> carries message, line, char and index. \<open>UnclosedQuoteError\<close> is
  raised from the \<open>last_quote_*\<close> variables, which start as \<open>None\<close>. \<open>TypeError\<close> is
  what Python raises for \<open>x in None\<close>, for \<open>None in ''...''\<close> and for \<open>issubclass\<close> on
  a value that is not a class.
\<close>

datatype error =
    InvalidDialectError
  | UnknownDialectError string
  | UnclosedQuoteError string "nat option" "nat option" "nat option"
  | UnallowedQuoteError string nat nat nat
  | TypeError

subsection \<open>Dialects\<close>

record Dialect =
  delimiter :: "string option"
  quotechar :: "string option"
  commentchar :: "string option"
  trimleft :: "string option"
  trimright :: "string option"
  ignoreemptylines :: "bool option"

definition BaseDialect :: Dialect where
  "BaseDialect = \<lparr>delimiter = None, quotechar = None, commentchar = None,
     trimleft = None, trimright = None, ignoreemptylines = None\<rparr>"

definition DefaultDialect :: Dialect where
  "DefaultDialect = \<lparr>delimiter = Some '','', quotechar = Some [DQ], commentchar = Some ''#'',
     trimleft = Some [CHR '' '', TAB, NL, CR], trimright = Some [CHR '' '', TAB, NL, CR],
     ignoreemptylines = Some True\<rparr>"

definition WhitespaceDialect :: Dialect where
  "WhitespaceDialect = DefaultDialect\<lparr>delimiter := Some [CHR '' '', TAB]\<rparr>"

definition known_dialects :: "string \<rightharpoonup> Dialect" where
  "known_dialects = [''default'' \<mapsto> DefaultDialect, ''whitespace'' \<mapsto> WhitespaceDialect]"

subsection \<open>Modes, lines and the scanner state\<close>

datatype Mode =
    MODE_FIRST
  | MODE_OUTSIDE
  | MODE_INSIDE
  | MODE_INSIDE_QUOTED
  | MODE_INSIDE_QUOTED_QUOTE
  | MODE_COMMENT

record Line =
  line_fields :: "string list"
  lineno :: nat

record state =
  mode :: Mode
  field :: string
  line :: "string list"
  cur_line :: nat
  cur_char :: nat
  idx :: nat
  last_quote_line :: "nat option"
  last_quote_char :: "nat option"
  last_quote_idx :: "nat option"

definition init_state :: state where
  "init_state = \<lparr>mode = MODE_FIRST, field = [], line = [], cur_line = 1, cur_char = 0,
     idx = 0, last_quote_line = None, last_quote_char = None, last_quote_idx = None\<rparr>"

definition newlinechars :: string where
  "newlinechars = [NL, CR]"

subsection \<open>Character classes of a dialect\<close>

text \<open>\<open>str.rstrip(chars)\<close>: drop the longest suffix made of characters of \<open>chars\<close>.\<close>

definition rstrip :: "string \<Rightarrow> string \<Rightarrow> string" where
  "rstrip chars data = rev (dropWhile (\<lambda>c. c \<in> set chars) (rev data))"

definition Reader_trimright :: "Dialect \<Rightarrow> string \<Rightarrow> string" where
  "Reader_trimright d data =
     (case trimright d of None \<Rightarrow> data | Some chars \<Rightarrow> rstrip chars data)"

definition is_ignore_left :: "Dialect \<Rightarrow> char \<Rightarrow> bool" where
  "is_ignore_left d c = (case trimleft d of None \<Rightarrow> False | Some chars \<Rightarrow> c \<in> set chars)"

definition is_ignore_right :: "Dialect \<Rightarrow> char \<Rightarrow> bool" where
  "is_ignore_right d c = (case trimright d of None \<Rightarrow> False | Some chars \<Rightarrow> c \<in> set chars)"

definition is_comment :: "Dialect \<Rightarrow> char \<Rightarrow> bool" where
  "is_comment d c = (case commentchar d of None \<Rightarrow> False | Some chars \<Rightarrow> c \<in> set chars)"

text \<open>\<open>char == quotechar\<close> compares the one-character string read with the whole attribute.\<close>

definition is_quote :: "Dialect \<Rightarrow> char \<Rightarrow> bool" where
  "is_quote d c = (case quotechar d of None \<Rightarrow> False | Some q \<Rightarrow> [c] = q)"

definition is_delimiter :: "Dialect \<Rightarrow> char \<Rightarrow> error + bool" where
  "is_delimiter d c =
     (case delimiter d of None \<Rightarrow> Inl TypeError | Some chars \<Rightarrow> Inr (c \<in> set chars))"

text \<open>\<open>sub in s\<close> on two Python strings: \<open>sub\<close> occurs in \<open>s\<close> as a contiguous substring.\<close>

fun str_contains :: "string \<Rightarrow> string \<Rightarrow> bool" where
  "str_contains sub [] = (sub = [])"
| "str_contains sub (c # cs) = (take (length sub) (c # cs) = sub \<or> str_contains sub cs)"

definition delimiter_is_whitespace :: "Dialect \<Rightarrow> error + bool" where
  "delimiter_is_whitespace d =
     (case trimright d of
        None \<Rightarrow> Inl TypeError
      | Some tr \<Rightarrow> (case delimiter d of None \<Rightarrow> Inl TypeError | Some ds \<Rightarrow> Inr (str_contains ds tr)))"

subsection \<open>Closing a field, flushing a line\<close>

definition next_field :: "Dialect \<Rightarrow> state \<Rightarrow> state" where
  "next_field d s =
     s\<lparr>line := line s @
          [if mode s \<noteq> MODE_INSIDE_QUOTED_QUOTE then Reader_trimright d (field s) else field s],
       field := [],
       mode := MODE_OUTSIDE\<rparr>"

definition yield_line :: "Dialect \<Rightarrow> bool \<Rightarrow> state \<Rightarrow> Line \<times> state" where
  "yield_line d w s =
     (let s1 = (if \<not> (mode s = MODE_OUTSIDE \<and> w) then next_field d s else s)
      in (\<lparr>line_fields = line s1, lineno = cur_line s1\<rparr>,
          s1\<lparr>field := [], line := [], mode := MODE_FIRST\<rparr>))"

subsection \<open>One iteration of the character loop\<close>

definition advance :: "state \<Rightarrow> char \<Rightarrow> state" where
  "advance s c =
     (let s1 = s\<lparr>cur_char := cur_char s + 1, idx := idx s + 1\<rparr>
      in if c \<in> set newlinechars then s1\<lparr>cur_line := cur_line s1 + 1, cur_char := 0\<rparr> else s1)"

definition emit :: "Line \<times> state \<Rightarrow> error + (Line list \<times> state)" where
  "emit p = Inr ([fst p], snd p)"

definition step :: "Dialect \<Rightarrow> bool \<Rightarrow> state \<Rightarrow> char \<Rightarrow> error + (Line list \<times> state)" where
  "step d w s0 c =
     (let s = advance s0 c; is_newline = (c \<in> set newlinechars) in
      if mode s = MODE_COMMENT then
        Inr ([], if is_newline then s\<lparr>mode := MODE_FIRST\<rparr> else s)
      else if mode s = MODE_OUTSIDE \<or> mode s = MODE_FIRST then
        (if is_newline then
           (if mode s \<noteq> MODE_FIRST then emit (yield_line d w s) else Inr ([], s))
         else if is_ignore_left d c then Inr ([], s)
         else if mode s = MODE_FIRST \<and> is_comment d c then Inr ([], s\<lparr>mode := MODE_COMMENT\<rparr>)
         else if is_quote d c then
           Inr ([], s\<lparr>mode := MODE_INSIDE_QUOTED,
                      last_quote_line := Some (cur_line s),
                      last_quote_char := Some (cur_char s),
                      last_quote_idx := Some (idx s)\<rparr>)
         else
           (case is_delimiter d c of
              Inl e \<Rightarrow> Inl e
            | Inr True \<Rightarrow> Inr ([], next_field d s)
            | Inr False \<Rightarrow> Inr ([], s\<lparr>mode := MODE_INSIDE, field := field s @ [c]\<rparr>)))
      else if mode s = MODE_INSIDE then
        (if is_quote d c then
           Inl (UnallowedQuoteError ''Quote not allowed here'' (cur_line s) (cur_char s) (idx s))
         else if is_newline then emit (yield_line d w s)
         else
           (case is_delimiter d c of
              Inl e \<Rightarrow> Inl e
            | Inr True \<Rightarrow> Inr ([], next_field d s)
            | Inr False \<Rightarrow> Inr ([], s\<lparr>field := field s @ [c]\<rparr>)))
      else if mode s = MODE_INSIDE_QUOTED_QUOTE then
        (if is_quote d c then Inr ([], s\<lparr>field := field s @ [c], mode := MODE_INSIDE_QUOTED\<rparr>)
         else
           (case is_delimiter d c of
              Inl e \<Rightarrow> Inl e
            | Inr True \<Rightarrow> Inr ([], next_field d s)
            | Inr False \<Rightarrow>
                if is_newline then emit (yield_line d w s)
                else Inl (UnallowedQuoteError ''Single quote inside quoted field''
                            (cur_line s) (cur_char s) (idx s))))
      else if mode s = MODE_INSIDE_QUOTED then
        (if is_quote d c then Inr ([], s\<lparr>mode := MODE_INSIDE_QUOTED_QUOTE\<rparr>)
         else Inr ([], s\<lparr>field := field s @ [c]\<rparr>))
      else Inr ([], s))"

subsection \<open>The loop and the end of the stream\<close>

text \<open>
  \<open>scan\<close> is the \<open>for char in readchar\<close> loop from a given state: the lines yielded so
  far, and either the exception raised or the state when the stream is exhausted.
\<close>

fun scan :: "Dialect \<Rightarrow> bool \<Rightarrow> state \<Rightarrow> string \<Rightarrow> Line list \<times> (error + state)" where
  "scan d w s [] = ([], Inr s)"
| "scan d w s (c # cs) =
     (case step d w s c of
        Inl e \<Rightarrow> ([], Inl e)
      | Inr (out, s') \<Rightarrow> (case scan d w s' cs of (rows, r) \<Rightarrow> (out @ rows, r)))"

definition finish :: "Dialect \<Rightarrow> bool \<Rightarrow> state \<Rightarrow> Line list \<times> error option" where
  "finish d w s =
     (if mode s = MODE_INSIDE_QUOTED then
        ([], Some (UnclosedQuoteError ''Unexpected end''
                     (last_quote_line s) (last_quote_char s) (last_quote_idx s)))
      else if mode s = MODE_INSIDE_QUOTED_QUOTE \<or> mode s = MODE_OUTSIDE \<or> mode s = MODE_INSIDE
        then ([fst (yield_line d w s)], None)
      else ([], None))"

definition iter_from :: "Dialect \<Rightarrow> bool \<Rightarrow> state \<Rightarrow> string \<Rightarrow> Line list \<times> error option" where
  "iter_from d w s input =
     (case scan d w s input of
        (rows, Inl e) \<Rightarrow> (rows, Some e)
      | (rows, Inr s') \<Rightarrow> (case finish d w s' of (rows', r) \<Rightarrow> (rows @ rows', r)))"

text \<open>
  \<open>Reader.__iter__\<close> over a stream holding \<open>input\<close>: \<open>delimiter_is_whitespace\<close> is
  computed before the first character is read.
\<close>

definition Reader_iter :: "Dialect \<Rightarrow> string \<Rightarrow> Line list \<times> error option" where
  "Reader_iter d input =
     (case delimiter_is_whitespace d of
        Inl e \<Rightarrow> ([], Some e)
      | Inr w \<Rightarrow> iter_from d w init_state input)"

subsection \<open>Constructing a reader\<close>

text \<open>
  The values the \<open>dialect\<close> argument can hold at run time: \<open>None\<close>, a string, a class
  derived from \<open>Dialect\<close> (with its attributes), a class not derived from it, and a
  value that is not a class at all (a number, an instance, ...). \<open>issubclass\<close> raises
  \<open>TypeError\<close> when its first argument is not a class.
\<close>

datatype dialect_arg =
    PyNone
  | PyStr string
  | PyDialectClass Dialect
  | PyOtherClass
  | PyNonClass

record Reader =
  line_num :: nat
  Reader_dialect :: Dialect
  Reader_file :: string
  Reader_debug :: bool

definition Reader_init :: "string \<Rightarrow> dialect_arg \<Rightarrow> bool \<Rightarrow> error + Reader" where
  "Reader_init file dialect debug =
     (case dialect of
        PyDialectClass d \<Rightarrow>
          Inr \<lparr>line_num = 0, Reader_dialect = d, Reader_file = file, Reader_debug = debug\<rparr>
      | PyOtherClass \<Rightarrow> Inl InvalidDialectError
      | _ \<Rightarrow> Inl TypeError)"

definition reader :: "string \<Rightarrow> dialect_arg \<Rightarrow> error + Reader" where
  "reader file dialect =
     (case dialect of
        PyNone \<Rightarrow> Reader_init file (PyDialectClass DefaultDialect) False
      | PyStr name \<Rightarrow>
          (case known_dialects name of
             None \<Rightarrow> Inl (UnknownDialectError name)
           | Some d \<Rightarrow> Reader_init file (PyDialectClass d) False)
      | _ \<Rightarrow> Reader_init file dialect False)"

section \<open>Notions used to state the properties\<close>

subsection \<open>Positions in the stream\<close>

text \<open>
  The position of the last character of a prefix \<open>p\<close> of the stream: every character
  advances the index, a newline character advances the line and resets the column.
\<close>

definition count_newlines :: "string \<Rightarrow> nat" where
  "count_newlines p = length (filter (\<lambda>c. c \<in> set newlinechars) p)"

definition line_of :: "string \<Rightarrow> nat" where
  "line_of p = 1 + count_newlines p"

definition col_of :: "string \<Rightarrow> nat" where
  "col_of p = length (takeWhile (\<lambda>c. c \<notin> set newlinechars) (rev p))"

text \<open>The mode of the machine after it has read \<open>p\<close> from the initial state.\<close>

definition mode_after :: "Dialect \<Rightarrow> bool \<Rightarrow> string \<Rightarrow> Mode option" where
  "mode_after d w p =
     (case snd (scan d w init_state p) of Inl e \<Rightarrow> None | Inr s \<Rightarrow> Some (mode s))"

text \<open>
  The quote \<open>q\<close> that follows \<open>p\<close> opens a quoted field that is still open after
  every prefix of \<open>r\<close>: the machine was outside a field before it and has stayed in
  the quoted modes since.
\<close>

definition opened_at :: "Dialect \<Rightarrow> bool \<Rightarrow> string \<Rightarrow> char \<Rightarrow> string \<Rightarrow> bool" where
  "opened_at d w p q r =
     (is_quote d q
      \<and> (mode_after d w p = Some MODE_FIRST \<or> mode_after d w p = Some MODE_OUTSIDE)
      \<and> (\<forall>k\<le>length r. mode_after d w (p @ q # take k r) = Some MODE_INSIDE_QUOTED
                       \<or> mode_after d w (p @ q # take k r) = Some MODE_INSIDE_QUOTED_QUOTE))"

subsection \<open>Writing a quoted field\<close>

text \<open>
  The module has no writer. A string is embedded in a quoted field by doubling each
  quote character and wrapping the result in quote characters.
\<close>

definition spec_quote_field :: "char \<Rightarrow> string \<Rightarrow> string" where
  "spec_quote_field q s = q # concat (map (\<lambda>c. if c = q then [q, q] else [c]) s) @ [q]"

subsection \<open>Reference semantics of lines without quotes and comments\<close>

text \<open>
  Splitting at every separator character: \<open>n\<close> separators give \<open>n + 1\<close> pieces. The
  reference field list of a line splits it at the delimiter characters and trims each
  piece on the left, then on the right. A line is blank when it holds only left-trim
  characters.
\<close>

fun spec_split :: "(char \<Rightarrow> bool) \<Rightarrow> string \<Rightarrow> string list" where
  "spec_split sep [] = [[]]"
| "spec_split sep (c # cs) =
     (if sep c then [] # spec_split sep cs
      else (case spec_split sep cs of [] \<Rightarrow> [[c]] | p # ps \<Rightarrow> (c # p) # ps))"

definition lstrip :: "string \<Rightarrow> string \<Rightarrow> string" where
  "lstrip chars data = dropWhile (\<lambda>c. c \<in> set chars) data"

definition spec_trimleft :: "Dialect \<Rightarrow> string \<Rightarrow> string" where
  "spec_trimleft d data = (case trimleft d of None \<Rightarrow> data | Some chars \<Rightarrow> lstrip chars data)"

definition spec_is_delimiter :: "Dialect \<Rightarrow> char \<Rightarrow> bool" where
  "spec_is_delimiter d c = (case delimiter d of None \<Rightarrow> False | Some chars \<Rightarrow> c \<in> set chars)"

definition spec_trim :: "Dialect \<Rightarrow> string \<Rightarrow> string" where
  "spec_trim d piece = Reader_trimright d (spec_trimleft d piece)"

definition spec_fields :: "Dialect \<Rightarrow> string \<Rightarrow> string list" where
  "spec_fields d l = map (spec_trim d) (spec_split (spec_is_delimiter d) l)"

definition spec_blank :: "Dialect \<Rightarrow> string \<Rightarrow> bool" where
  "spec_blank d l = list_all (is_ignore_left d) l"

definition spec_rows :: "Dialect \<Rightarrow> string \<Rightarrow> string list list" where
  "spec_rows d input =
     map (spec_fields d)
       (filter (\<lambda>l. \<not> spec_blank d l) (spec_split (\<lambda>c. c \<in> set newlinechars) input))"

subsection \<open>Invariants of the scanner\<close>

text \<open>A line under construction in \<open>MODE_OUTSIDE\<close> already holds a field.\<close>

definition line_inv :: "state \<Rightarrow> bool" where
  "line_inv s = (mode s = MODE_OUTSIDE \<longrightarrow> line s \<noteq> [])"

text \<open>Two states that differ at most in the index counters.\<close>

definition idx_equiv :: "state \<Rightarrow> state \<Rightarrow> bool" where
  "idx_equiv s t =
     (mode s = mode t \<and> field s = field t \<and> line s = line t \<and> cur_line s = cur_line t
      \<and> cur_char s = cur_char t \<and> last_quote_line s = last_quote_line t
      \<and> last_quote_char s = last_quote_char t)"

text \<open>
  What the machine owes for the rest \<open>seg\<close> of the current line, from its mode, the
  fields closed so far and the characters collected for the open field.
\<close>

definition inside_fields :: "Dialect \<Rightarrow> string \<Rightarrow> string \<Rightarrow> string list" where
  "inside_fields d f seg =
     (case spec_split (spec_is_delimiter d) seg of
        [] \<Rightarrow> []
      | p # ps \<Rightarrow> Reader_trimright d (f @ p) # map (spec_trim d) ps)"

fun pend :: "Dialect \<Rightarrow> Mode \<Rightarrow> string list \<Rightarrow> string \<Rightarrow> string \<Rightarrow> string list list" where
  "pend d MODE_FIRST l f seg = (if spec_blank d seg then [] else [spec_fields d seg])"
| "pend d MODE_OUTSIDE l f seg = [l @ spec_fields d seg]"
| "pend d m l f seg = [l @ inside_fields d f seg]"

definition plain_state :: "state \<Rightarrow> bool" where
  "plain_state s =
     ((mode s = MODE_FIRST \<or> mode s = MODE_OUTSIDE \<or> mode s = MODE_INSIDE)
      \<and> (mode s \<noteq> MODE_INSIDE \<longrightarrow> field s = [])
      \<and> (mode s = MODE_FIRST \<longrightarrow> line s = []))"

section \<open>Evaluating the reader\<close>

lemmas reader_defs =
  Reader_iter_def delimiter_is_whitespace_def iter_from_def init_state_def step_def
  advance_def newlinechars_def is_ignore_left_def is_comment_def is_quote_def
  is_delimiter_def next_field_def yield_line_def emit_def Reader_trimright_def rstrip_def
  finish_def DefaultDialect_def WhitespaceDialect_def

section \<open>General facts about the loop\<close>

lemma advance_simps [simp]:
  "mode (advance s c) = mode s" "field (advance s c) = field s" "line (advance s c) = line s"
  "idx (advance s c) = idx s + 1"
  "cur_line (advance s c) = (if c \<in> set newlinechars then cur_line s + 1 else cur_line s)"
  "cur_char (advance s c) = (if c \<in> set newlinechars then 0 else cur_char s + 1)"
  "last_quote_line (advance s c) = last_quote_line s"
  "last_quote_char (advance s c) = last_quote_char s"
  "last_quote_idx (advance s c) = last_quote_idx s"
  by (simp_all add: advance_def Let_def)

lemma scan_append:
  "scan d w s (p @ r) =
     (case scan d w s p of
        (rows, Inl e) \<Rightarrow> (rows, Inl e)
      | (rows, Inr s') \<Rightarrow> (case scan d w s' r of (rows', x) \<Rightarrow> (rows @ rows', x)))"
  by (induction p arbitrary: s) (auto split: sum.splits prod.splits)

lemma scan_snoc_Inr:
  assumes "scan d w s (xs @ [c]) = (rows, Inr s')"
  shows "\<exists>rows0 s0 out. scan d w s xs = (rows0, Inr s0) \<and> step d w s0 c = Inr (out, s')
            \<and> rows = rows0 @ out"
  using assms by (auto simp: scan_append split: sum.splits prod.splits)

lemma iter_from_Nil: "iter_from d w s [] = finish d w s"
  by (simp add: iter_from_def split: prod.splits)

lemma iter_from_Cons_Inr:
  "step d w s c = Inr (out, s') \<Longrightarrow>
     iter_from d w s (c # cs) = (out @ fst (iter_from d w s' cs), snd (iter_from d w s' cs))"
  by (simp add: iter_from_def split: prod.splits sum.splits)

lemma iter_from_append:
  "scan d w s p = (rows, Inr s') \<Longrightarrow>
     fst (iter_from d w s (p @ r)) = rows @ fst (iter_from d w s' r)"
  by (auto simp: iter_from_def scan_append split: prod.splits sum.splits)

lemma diw_delimiter:
  "delimiter_is_whitespace d = Inr w \<Longrightarrow> \<exists>ds. delimiter d = Some ds"
  by (auto simp: delimiter_is_whitespace_def split: option.splits)

lemma step_counters:
  "step d w s c = Inr (out, s') \<Longrightarrow>
     idx s' = idx s + 1
     \<and> cur_line s' = (if c \<in> set newlinechars then cur_line s + 1 else cur_line s)
     \<and> cur_char s' = (if c \<in> set newlinechars then 0 else cur_char s + 1)"
  by (auto simp: step_def Let_def emit_def yield_line_def next_field_def
      split: if_splits sum.splits bool.splits)

lemma line_of_snoc: "line_of (xs @ [c]) = (if c \<in> set newlinechars then line_of xs + 1 else line_of xs)"
  by (simp add: line_of_def count_newlines_def)

lemma col_of_snoc: "col_of (xs @ [c]) = (if c \<in> set newlinechars then 0 else col_of xs + 1)"
  by (simp add: col_of_def)

lemma scan_position:
  "scan d w init_state p = (rows, Inr s) \<Longrightarrow>
     idx s = length p \<and> cur_line s = line_of p \<and> cur_char s = col_of p"
proof (induction p arbitrary: rows s rule: rev_induct)
  case Nil
  then show ?case
    by (auto simp: init_state_def line_of_def col_of_def count_newlines_def)
next
  case (snoc c xs)
  from scan_snoc_Inr[OF snoc.prems] obtain rows0 s0 out where
    a: "scan d w init_state xs = (rows0, Inr s0)" and b: "step d w s0 c = Inr (out, s)" by blast
  from snoc.IH[OF a] step_counters[OF b] show ?case
    by (simp add: line_of_snoc col_of_snoc)
qed

lemma scan_error_decomp:
  "scan d w s0 input = (rows, Inl e) \<Longrightarrow>
     \<exists>p ch r s. input = p @ ch # r \<and> scan d w s0 p = (rows, Inr s) \<and> step d w s ch = Inl e"
proof (induction input arbitrary: s0 rows)
  case Nil
  then show ?case by simp
next
  case (Cons c cs)
  show ?case
  proof (cases "step d w s0 c")
    case (Inl e')
    with Cons.prems have "rows = []" "e' = e" by auto
    with Inl have "c # cs = [] @ c # cs \<and> scan d w s0 [] = (rows, Inr s0) \<and> step d w s0 c = Inl e"
      by simp
    then show ?thesis by blast
  next
    case (Inr x)
    obtain out s1 where x: "x = (out, s1)" by (cases x)
    obtain rows1 r1 where sc: "scan d w s1 cs = (rows1, r1)" by (cases "scan d w s1 cs")
    from Cons.prems Inr x sc have r: "rows = out @ rows1" "r1 = Inl e" by auto
    from Cons.IH[OF sc[unfolded r(2)]] obtain p ch r s where
      y: "cs = p @ ch # r" "scan d w s1 p = (rows1, Inr s)" "step d w s ch = Inl e" by blast
    have "c # cs = (c # p) @ ch # r \<and> scan d w s0 (c # p) = (rows, Inr s) \<and> step d w s ch = Inl e"
      using y Inr x r by simp
    then show ?thesis by blast
  qed
qed

section \<open>Line numbers\<close>

text \<open>
  Claim C1. Every line yielded carries the 1-based number of the source line on which
  it began; for the input \<open>a,b\<newline>c,d\<newline>\<close> the default dialect yields the fields
  \<open>[a, b]\<close> with line number 1 and \<open>[c, d]\<close> with line number 2.

  The loop increments \<open>cur_line\<close> on the newline before \<open>yield_line\<close> stamps the line,
  so a line ended by a newline gets the number of the following line (2 and 3 here),
  while the same line ended by the end of the stream gets its own number.
\<close>

theorem C1_lineno_off_by_one:
  "Reader_iter DefaultDialect (''a,b'' @ [NL] @ ''c,d'' @ [NL]) =
     ([\<lparr>line_fields = [''a'', ''b''], lineno = 2\<rparr>,
       \<lparr>line_fields = [''c'', ''d''], lineno = 3\<rparr>], None)
   \<and> Reader_iter DefaultDialect ''a,b'' = ([\<lparr>line_fields = [''a'', ''b''], lineno = 1\<rparr>], None)"
  by (simp add: reader_defs)

section \<open>Lines without quotes and comments\<close>

lemma spec_split_nonempty: "spec_split sep xs \<noteq> []"
  by (induction xs) (auto split: list.splits)

lemma spec_split_Cons_other:
  "\<not> sep c \<Longrightarrow> spec_split sep (c # cs) = (c # hd (spec_split sep cs)) # tl (spec_split sep cs)"
  using spec_split_nonempty[of sep cs] by (cases "spec_split sep cs") auto

lemma spec_trimleft_ignore:
  "is_ignore_left d c \<Longrightarrow> spec_trimleft d (c # p) = spec_trimleft d p"
  by (auto simp: spec_trimleft_def is_ignore_left_def lstrip_def split: option.splits)

lemma spec_trimleft_keep:
  "\<not> is_ignore_left d c \<Longrightarrow> spec_trimleft d (c # p) = c # p"
  by (auto simp: spec_trimleft_def is_ignore_left_def lstrip_def split: option.splits)

lemma spec_trimleft_Nil [simp]: "spec_trimleft d [] = []"
  by (simp add: spec_trimleft_def lstrip_def split: option.splits)

lemma spec_fields_ignore:
  "is_ignore_left d c \<Longrightarrow> \<not> spec_is_delimiter d c \<Longrightarrow> spec_fields d (c # seg) = spec_fields d seg"
  using spec_split_nonempty[of "spec_is_delimiter d" seg]
  by (cases "spec_split (spec_is_delimiter d) seg")
     (auto simp: spec_fields_def spec_trim_def spec_trimleft_ignore)

lemma spec_fields_delim:
  "spec_is_delimiter d c \<Longrightarrow> spec_fields d (c # seg) = Reader_trimright d [] # spec_fields d seg"
  by (simp add: spec_fields_def spec_trim_def)

lemma spec_fields_other:
  "\<not> is_ignore_left d c \<Longrightarrow> \<not> spec_is_delimiter d c \<Longrightarrow>
     spec_fields d (c # seg) = inside_fields d [c] seg"
  using spec_split_nonempty[of "spec_is_delimiter d" seg]
  by (cases "spec_split (spec_is_delimiter d) seg")
     (auto simp: spec_fields_def inside_fields_def spec_trim_def spec_trimleft_keep)

lemma inside_fields_delim:
  "spec_is_delimiter d c \<Longrightarrow>
     inside_fields d f (c # seg) = Reader_trimright d f # spec_fields d seg"
  by (simp add: inside_fields_def spec_fields_def)

lemma inside_fields_other:
  "\<not> spec_is_delimiter d c \<Longrightarrow> inside_fields d f (c # seg) = inside_fields d (f @ [c]) seg"
  using spec_split_nonempty[of "spec_is_delimiter d" seg]
  by (cases "spec_split (spec_is_delimiter d) seg") (auto simp: inside_fields_def)

lemma spec_fields_Nil: "spec_fields d [] = [Reader_trimright d []]"
  by (simp add: spec_fields_def spec_trim_def)

lemma inside_fields_Nil: "inside_fields d f [] = [Reader_trimright d f]"
  by (simp add: inside_fields_def)

lemma step_plain_newline:
  assumes "plain_state s" "c \<in> set newlinechars" "\<not> is_quote d c"
  shows "\<exists>out s'. step d False s c = Inr (out, s') \<and> mode s' = MODE_FIRST \<and> line s' = []
           \<and> field s' = [] \<and> map line_fields out = pend d (mode s) (line s) (field s) []"
  using assms
  by (auto simp: plain_state_def step_def Let_def emit_def yield_line_def next_field_def
        spec_blank_def spec_fields_Nil inside_fields_Nil)

lemma step_plain_other:
  assumes ds: "delimiter d = Some ds"
    and nolt: "\<forall>c. spec_is_delimiter d c \<longrightarrow> \<not> is_ignore_left d c"
    and p: "plain_state s"
    and c: "c \<notin> set newlinechars" "\<not> is_quote d c" "\<not> is_comment d c"
  shows "\<exists>s'. step d False s c = Inr ([], s') \<and> plain_state s'
           \<and> (\<forall>seg. pend d (mode s) (line s) (field s) (c # seg)
                     = pend d (mode s') (line s') (field s') seg)"
proof -
  have sd: "spec_is_delimiter d c = (c \<in> set ds)" using ds by (simp add: spec_is_delimiter_def)
  have idl: "is_delimiter d c = Inr (c \<in> set ds)" using ds by (simp add: is_delimiter_def)
  from p consider (first) "mode s = MODE_FIRST" "field s = []" "line s = []"
    | (outside) "mode s = MODE_OUTSIDE" "field s = []"
    | (inside) "mode s = MODE_INSIDE"
    by (auto simp: plain_state_def)
  then show ?thesis
  proof cases
    case first
    show ?thesis
    proof (cases "is_ignore_left d c")
      case True
      then have nd: "\<not> spec_is_delimiter d c" using nolt by blast
      show ?thesis using first True nd c
        by (simp add: step_def Let_def plain_state_def spec_blank_def spec_fields_ignore)
    next
      case False
      show ?thesis
      proof (cases "c \<in> set ds")
        case True
        then show ?thesis using first False c idl sd
          by (simp add: step_def Let_def plain_state_def spec_blank_def spec_fields_delim
              next_field_def)
      next
        case nd: False
        then show ?thesis using first False c idl sd
          by (simp add: step_def Let_def plain_state_def spec_blank_def spec_fields_other)
      qed
    qed
  next
    case outside
    show ?thesis
    proof (cases "is_ignore_left d c")
      case True
      then have nd: "\<not> spec_is_delimiter d c" using nolt by blast
      show ?thesis using outside True nd c
        by (simp add: step_def Let_def plain_state_def spec_fields_ignore)
    next
      case False
      show ?thesis
      proof (cases "c \<in> set ds")
        case True
        then show ?thesis using outside False c idl sd
          by (simp add: step_def Let_def plain_state_def spec_fields_delim next_field_def)
      next
        case nd: False
        then show ?thesis using outside False c idl sd
          by (simp add: step_def Let_def plain_state_def spec_fields_other)
      qed
    qed
  next
    case inside
    show ?thesis
    proof (cases "c \<in> set ds")
      case True
      then show ?thesis using inside c idl sd
        by (simp add: step_def Let_def plain_state_def inside_fields_delim next_field_def)
    next
      case False
      then show ?thesis using inside c idl sd
        by (simp add: step_def Let_def plain_state_def inside_fields_other)
    qed
  qed
qed

lemma finish_plain:
  assumes "plain_state s"
  shows "snd (finish d False s) = None
         \<and> map line_fields (fst (finish d False s)) = pend d (mode s) (line s) (field s) []"
  using assms
  by (auto simp: plain_state_def finish_def yield_line_def next_field_def
        spec_blank_def spec_fields_Nil inside_fields_Nil)

lemma iter_plain:
  assumes ds: "delimiter d = Some ds"
    and nolt: "\<forall>c. spec_is_delimiter d c \<longrightarrow> \<not> is_ignore_left d c"
  shows "plain_state s \<Longrightarrow> \<forall>c\<in>set xs. \<not> is_quote d c \<and> \<not> is_comment d c \<Longrightarrow>
    snd (iter_from d False s xs) = None
    \<and> map line_fields (fst (iter_from d False s xs)) =
        pend d (mode s) (line s) (field s) (hd (spec_split (\<lambda>c. c \<in> set newlinechars) xs))
        @ concat (map (pend d MODE_FIRST [] []) (tl (spec_split (\<lambda>c. c \<in> set newlinechars) xs)))"
proof (induction xs arbitrary: s)
  case Nil
  then show ?case using finish_plain[of s d] by (simp add: iter_from_Nil)
next
  case (Cons c cs)
  have rest: "\<forall>c\<in>set cs. \<not> is_quote d c \<and> \<not> is_comment d c" using Cons.prems by simp
  have cq: "\<not> is_quote d c" "\<not> is_comment d c" using Cons.prems by simp_all
  show ?case
  proof (cases "c \<in> set newlinechars")
    case True
    from step_plain_newline[OF Cons.prems(1) True cq(1)] obtain out s' where
      st: "step d False s c = Inr (out, s')" and s': "mode s' = MODE_FIRST" "line s' = []"
        "field s' = []" and o: "map line_fields out = pend d (mode s) (line s) (field s) []"
      by blast
    have p': "plain_state s'" using s' by (simp add: plain_state_def)
    from Cons.IH[OF p' rest] s' o True spec_split_nonempty[of "\<lambda>c. c \<in> set newlinechars" cs]
    show ?thesis
      by (cases "spec_split (\<lambda>c. c \<in> set newlinechars) cs")
         (simp_all add: iter_from_Cons_Inr[OF st])
  next
    case False
    from step_plain_other[OF ds nolt Cons.prems(1) False cq] obtain s' where
      st: "step d False s c = Inr ([], s')" and p': "plain_state s'"
      and pe: "\<And>seg. pend d (mode s) (line s) (field s) (c # seg)
                     = pend d (mode s') (line s') (field s') seg" by blast
    have sp: "spec_split (\<lambda>c. c \<in> set newlinechars) (c # cs) =
        (c # hd (spec_split (\<lambda>c. c \<in> set newlinechars) cs))
          # tl (spec_split (\<lambda>c. c \<in> set newlinechars) cs)"
      using False by (rule spec_split_Cons_other)
    from Cons.IH[OF p' rest] pe
    show ?thesis
      unfolding sp by (simp add: iter_from_Cons_Inr[OF st])
  qed
qed

lemma concat_pend_first:
  "concat (map (pend d MODE_FIRST [] []) segs)
     = map (spec_fields d) (filter (\<lambda>l. \<not> spec_blank d l) segs)"
  by (induction segs) auto

text \<open>
  Claim C2, as amended. Take a dialect whose delimiter is not a substring of its
  right-trim string (so that no trailing field is dropped) and none of whose delimiter
  characters is a left-trim character, and an input without quote and comment
  characters. The reader raises nothing, and the field lists of the lines it yields
  are, in order, the reference field lists of the lines of the input that are not blank:
  each such line split at every delimiter character, each piece trimmed on the left and
  then on the right. A blank line yields no line at all.
\<close>

theorem C2_plain_lines:
  assumes diw: "delimiter_is_whitespace d = Inr False"
    and nolt: "\<forall>c. spec_is_delimiter d c \<longrightarrow> \<not> is_ignore_left d c"
    and nq: "\<forall>c\<in>set input. \<not> is_quote d c \<and> \<not> is_comment d c"
  shows "snd (Reader_iter d input) = None
         \<and> map line_fields (fst (Reader_iter d input)) = spec_rows d input"
proof -
  from diw_delimiter[OF diw] obtain ds where ds: "delimiter d = Some ds" by blast
  have p: "plain_state init_state" by (simp add: plain_state_def init_state_def)
  have m: "mode init_state = MODE_FIRST" by (simp add: init_state_def)
  let ?segs = "spec_split (\<lambda>c. c \<in> set newlinechars) input"
  have "pend d MODE_FIRST (line init_state) (field init_state) (hd ?segs)
        @ concat (map (pend d MODE_FIRST [] []) (tl ?segs))
        = concat (map (pend d MODE_FIRST [] []) ?segs)"
    using spec_split_nonempty[of "\<lambda>c. c \<in> set newlinechars" input]
    by (cases ?segs) simp_all
  with iter_plain[OF ds nolt p nq] m diw show ?thesis
    by (simp add: Reader_iter_def spec_rows_def concat_pend_first)
qed

theorem C2_plain_lines_witness:
  "delimiter_is_whitespace DefaultDialect = Inr False
   \<and> snd (Reader_iter DefaultDialect (''a, b ,,c'' @ [NL, NL] @ '' d'')) = None
   \<and> map line_fields (fst (Reader_iter DefaultDialect (''a, b ,,c'' @ [NL, NL] @ '' d'')))
       = [[''a'', ''b'', '''', ''c''], [''d'']]"
proof -
  have a: "delimiter_is_whitespace DefaultDialect = Inr False" by (simp add: reader_defs)
  have b: "\<forall>c. spec_is_delimiter DefaultDialect c \<longrightarrow> \<not> is_ignore_left DefaultDialect c"
    by (simp add: spec_is_delimiter_def is_ignore_left_def DefaultDialect_def)
  have c: "\<forall>c\<in>set (''a, b ,,c'' @ [NL, NL] @ '' d'').
        \<not> is_quote DefaultDialect c \<and> \<not> is_comment DefaultDialect c"
    by (simp add: is_quote_def is_comment_def DefaultDialect_def)
  have d: "spec_rows DefaultDialect (''a, b ,,c'' @ [NL, NL] @ '' d'')
       = [[''a'', ''b'', '''', ''c''], [''d'']]"
    by (simp add: spec_rows_def spec_fields_def spec_blank_def spec_trim_def spec_trimleft_def
        lstrip_def spec_is_delimiter_def newlinechars_def is_ignore_left_def
        Reader_trimright_def rstrip_def DefaultDialect_def)
  from C2_plain_lines [OF a b c] a d show ?thesis by simp
qed

text \<open>
  The claim as stated fails in two ways. In the whitespace dialect the delimiters are
  left-trim characters, so a run of them is skipped and yields no empty fields, where
  splitting gives one piece per delimiter. In the default dialect a blank line yields
  no line, where splitting the empty line gives one empty piece.
\<close>

theorem C2_counterexample:
  "Reader_iter WhitespaceDialect ''a   b'' = ([\<lparr>line_fields = [''a'', ''b''], lineno = 1\<rparr>], None)
   \<and> spec_fields WhitespaceDialect ''a   b'' = [''a'', '''', '''', ''b'']
   \<and> Reader_iter DefaultDialect [NL] = ([], None)
   \<and> spec_fields DefaultDialect '''' = ['''']"
  by (simp add: reader_defs spec_fields_def spec_trim_def spec_trimleft_def lstrip_def
      spec_is_delimiter_def)

section \<open>The trailing-field drop\<close>

text \<open>
  Claim C3. The trailing field is dropped exactly when the delimiter characters are a
  subset of the right-trim characters; for every such dialect a line flushed in
  \<open>MODE_OUTSIDE\<close> drops the pending field, so the whitespace dialect reads \<open>a   b\<newline>\<close>
  as the single line \<open>[a, b]\<close>.

  The source tests \<open>delimiter in trimright\<close>, a substring test. With the delimiter
  written tab-then-space (the same set as the whitespace dialect's) the delimiters are
  a subset of the right-trim characters, but not a substring, and the trailing empty
  field is kept.
\<close>

theorem C3_subset_not_substring:
  "set (the (delimiter (DefaultDialect\<lparr>delimiter := Some [TAB, CHR '' '']\<rparr>)))
     \<subseteq> set (the (trimright (DefaultDialect\<lparr>delimiter := Some [TAB, CHR '' '']\<rparr>)))
   \<and> delimiter_is_whitespace (DefaultDialect\<lparr>delimiter := Some [TAB, CHR '' '']\<rparr>) = Inr False
   \<and> Reader_iter (DefaultDialect\<lparr>delimiter := Some [TAB, CHR '' '']\<rparr>) (''a '' @ [NL]) =
       ([\<lparr>line_fields = [''a'', ''''], lineno = 2\<rparr>], None)
   \<and> Reader_iter WhitespaceDialect (''a '' @ [NL]) =
       ([\<lparr>line_fields = [''a''], lineno = 2\<rparr>], None)
   \<and> Reader_iter WhitespaceDialect (''a   b'' @ [NL]) =
       ([\<lparr>line_fields = [''a'', ''b''], lineno = 2\<rparr>], None)"
  by (simp add: reader_defs)

section \<open>An unclosed quote\<close>

lemma step_into_quoted:
  assumes "step d w s0 c = Inr (out, s)"
    and "mode s = MODE_INSIDE_QUOTED \<or> mode s = MODE_INSIDE_QUOTED_QUOTE"
  shows "((mode s0 = MODE_FIRST \<or> mode s0 = MODE_OUTSIDE) \<and> is_quote d c
            \<and> c \<notin> set newlinechars \<and> mode s = MODE_INSIDE_QUOTED
            \<and> last_quote_line s = Some (cur_line s0)
            \<and> last_quote_char s = Some (cur_char s0 + 1)
            \<and> last_quote_idx s = Some (idx s0 + 1))
         \<or> ((mode s0 = MODE_INSIDE_QUOTED \<or> mode s0 = MODE_INSIDE_QUOTED_QUOTE)
            \<and> last_quote_line s = last_quote_line s0
            \<and> last_quote_char s = last_quote_char s0
            \<and> last_quote_idx s = last_quote_idx s0)"
  using assms
  by (auto simp: step_def Let_def emit_def yield_line_def next_field_def
      split: if_splits sum.splits bool.splits)

lemma scan_open_quote:
  "scan d w init_state input = (rows, Inr s) \<Longrightarrow>
   mode s = MODE_INSIDE_QUOTED \<or> mode s = MODE_INSIDE_QUOTED_QUOTE \<Longrightarrow>
   \<exists>p q r. input = p @ q # r \<and> opened_at d w p q r
      \<and> last_quote_line s = Some (line_of (p @ [q]))
      \<and> last_quote_char s = Some (col_of (p @ [q]))
      \<and> last_quote_idx s = Some (length p + 1)"
proof (induction input arbitrary: rows s rule: rev_induct)
  case Nil
  then show ?case by (auto simp: init_state_def)
next
  case (snoc c xs)
  from scan_snoc_Inr[OF snoc.prems(1)] obtain rows0 s0 out where
    a: "scan d w init_state xs = (rows0, Inr s0)" and b: "step d w s0 c = Inr (out, s)" by blast
  have ma: "mode_after d w xs = Some (mode s0)" using a by (simp add: mode_after_def)
  have mb: "mode_after d w (xs @ [c]) = Some (mode s)"
    using snoc.prems(1) by (simp add: mode_after_def)
  from step_into_quoted[OF b snoc.prems(2)] consider
    (opens) "mode s0 = MODE_FIRST \<or> mode s0 = MODE_OUTSIDE" "is_quote d c"
      "c \<notin> set newlinechars" "mode s = MODE_INSIDE_QUOTED"
      "last_quote_line s = Some (cur_line s0)"
      "last_quote_char s = Some (cur_char s0 + 1)" "last_quote_idx s = Some (idx s0 + 1)"
  | (stays) "mode s0 = MODE_INSIDE_QUOTED \<or> mode s0 = MODE_INSIDE_QUOTED_QUOTE"
      "last_quote_line s = last_quote_line s0"
      "last_quote_char s = last_quote_char s0" "last_quote_idx s = last_quote_idx s0"
    by blast
  then show ?case
  proof cases
    case opens
    note m0 = opens(1) and q = opens(2) and nn = opens(3) and m = opens(4) and l = opens(5-7)
    have "opened_at d w xs c []" using m0 q m ma mb by (auto simp: opened_at_def)
    moreover have "last_quote_line s = Some (line_of (xs @ [c]))"
      "last_quote_char s = Some (col_of (xs @ [c]))" "last_quote_idx s = Some (length xs + 1)"
      using l nn scan_position[OF a] by (simp_all add: line_of_snoc col_of_snoc)
    ultimately show ?thesis by blast
  next
    case stays
    note m0 = stays(1) and l = stays(2-4)
    from snoc.IH[OF a m0] obtain p q r where
      x: "xs = p @ q # r" and o: "opened_at d w p q r"
      and lq: "last_quote_line s0 = Some (line_of (p @ [q]))"
        "last_quote_char s0 = Some (col_of (p @ [q]))" "last_quote_idx s0 = Some (length p + 1)"
      by blast
    have "opened_at d w p q (r @ [c])"
      unfolding opened_at_def
    proof (intro conjI allI impI)
      show "is_quote d q" using o by (simp add: opened_at_def)
      show "mode_after d w p = Some MODE_FIRST \<or> mode_after d w p = Some MODE_OUTSIDE"
        using o by (simp add: opened_at_def)
      fix k assume k: "k \<le> length (r @ [c])"
      show "mode_after d w (p @ q # take k (r @ [c])) = Some MODE_INSIDE_QUOTED
          \<or> mode_after d w (p @ q # take k (r @ [c])) = Some MODE_INSIDE_QUOTED_QUOTE"
      proof (cases "k \<le> length r")
        case True
        then show ?thesis using o by (simp add: opened_at_def)
      next
        case False
        then have "take k (r @ [c]) = r @ [c]" using k by simp
        then show ?thesis using mb x snoc.prems(2) by simp
      qed
    qed
    moreover have "xs @ [c] = p @ q # (r @ [c])" using x by simp
    ultimately show ?thesis using l lq by metis
  qed
qed

text \<open>
  Claim C4. If the stream ends while the machine is in \<open>MODE_INSIDE_QUOTED\<close>, the
  iteration raises \<open>UnclosedQuoteError\<close> with the line, column and index of the quote
  that opened the unterminated field: the input is \<open>p @ q # r\<close> where the quote \<open>q\<close>
  was read outside a field, the machine has been in the quoted modes ever since, and
  the error carries the position of \<open>q\<close>, not that of the end of the stream.
\<close>

theorem C4_unclosed_quote:
  assumes diw: "delimiter_is_whitespace d = Inr w"
    and sc: "scan d w init_state input = (rows, Inr s)"
    and m: "mode s = MODE_INSIDE_QUOTED"
  shows "\<exists>p q r. input = p @ q # r \<and> opened_at d w p q r
     \<and> Reader_iter d input =
         (rows, Some (UnclosedQuoteError ''Unexpected end''
                  (Some (line_of (p @ [q]))) (Some (col_of (p @ [q]))) (Some (length p + 1))))"
proof -
  from scan_open_quote[OF sc] m obtain p q r where
    x: "input = p @ q # r" "opened_at d w p q r"
      "last_quote_line s = Some (line_of (p @ [q]))"
      "last_quote_char s = Some (col_of (p @ [q]))"
      "last_quote_idx s = Some (length p + 1)" by blast
  have "Reader_iter d input =
         (rows, Some (UnclosedQuoteError ''Unexpected end''
                  (Some (line_of (p @ [q]))) (Some (col_of (p @ [q]))) (Some (length p + 1))))"
    using diw sc m x(3-5) by (simp add: Reader_iter_def iter_from_def finish_def)
  with x(1,2) show ?thesis by blast
qed

theorem C4_unclosed_quote_witness:
  "delimiter_is_whitespace DefaultDialect = Inr False
   \<and> scan DefaultDialect False init_state [CHR ''a'', CHR '','', DQ, CHR ''b'', NL] =
       ([], Inr \<lparr>mode = MODE_INSIDE_QUOTED, field = [CHR ''b'', NL], line = [''a''],
                cur_line = 2, cur_char = 0, idx = 5, last_quote_line = Some 1,
                last_quote_char = Some 3, last_quote_idx = Some 3\<rparr>)
   \<and> Reader_iter DefaultDialect [CHR ''a'', CHR '','', DQ, CHR ''b'', NL] =
       ([], Some (UnclosedQuoteError ''Unexpected end'' (Some 1) (Some 3) (Some 3)))"
proof -
  let ?s = "\<lparr>mode = MODE_INSIDE_QUOTED, field = [CHR ''b'', NL], line = [''a''],
                cur_line = 2, cur_char = 0, idx = 5, last_quote_line = Some 1,
                last_quote_char = Some 3, last_quote_idx = Some 3\<rparr>"
  have a: "delimiter_is_whitespace DefaultDialect = Inr False"
    by (simp add: reader_defs)
  have b: "scan DefaultDialect False init_state [CHR ''a'', CHR '','', DQ, CHR ''b'', NL] = ([], Inr ?s)"
    by (simp add: reader_defs)
  have c: "mode ?s = MODE_INSIDE_QUOTED" by simp
  have e: "Reader_iter DefaultDialect [CHR ''a'', CHR '','', DQ, CHR ''b'', NL] =
       ([], Some (UnclosedQuoteError ''Unexpected end'' (Some 1) (Some 3) (Some 3)))"
    by (simp add: reader_defs)
  from C4_unclosed_quote [OF a b c] a b e show ?thesis by blast
qed

section \<open>A quote that is not allowed\<close>

lemma step_Inl:
  assumes "delimiter d = Some ds"
  shows "step d w s ch = Inl e \<longleftrightarrow>
     (mode s = MODE_INSIDE \<and> is_quote d ch
        \<and> e = UnallowedQuoteError ''Quote not allowed here''
              (cur_line (advance s ch)) (cur_char (advance s ch)) (idx s + 1))
     \<or> (mode s = MODE_INSIDE_QUOTED_QUOTE \<and> \<not> is_quote d ch \<and> is_delimiter d ch = Inr False
        \<and> ch \<notin> set newlinechars
        \<and> e = UnallowedQuoteError ''Single quote inside quoted field''
              (cur_line (advance s ch)) (cur_char (advance s ch)) (idx s + 1))"
  using assms
  by (cases "mode s")
     (auto simp: step_def Let_def emit_def is_delimiter_def split: if_splits bool.splits)

lemma finish_not_unallowed:
  "snd (finish d w s) \<noteq> Some (UnallowedQuoteError msg l c i)"
  by (simp add: finish_def)

text \<open>
  Claim C5, as amended. \<open>UnallowedQuoteError\<close> is raised exactly when a quote character
  is read inside an unquoted field, or when, right after a quote read inside a quoted
  field, a character is read that is neither a quote, a delimiter nor a newline. It
  carries the line, column and index of the character being read (in the second case
  the character after the quote), and it ends the iteration: the lines yielded are
  those yielded before that character.
\<close>

theorem C5_unallowed_quote:
  assumes diw: "delimiter_is_whitespace d = Inr w"
  shows "Reader_iter d input = (rows, Some (UnallowedQuoteError msg l c i)) \<longleftrightarrow>
   (\<exists>p ch r s. input = p @ ch # r \<and> scan d w init_state p = (rows, Inr s)
      \<and> ((mode s = MODE_INSIDE \<and> is_quote d ch \<and> msg = ''Quote not allowed here'')
         \<or> (mode s = MODE_INSIDE_QUOTED_QUOTE \<and> \<not> is_quote d ch
              \<and> is_delimiter d ch = Inr False \<and> ch \<notin> set newlinechars
              \<and> msg = ''Single quote inside quoted field''))
      \<and> l = line_of (p @ [ch]) \<and> c = col_of (p @ [ch]) \<and> i = length p + 1)"
    (is "?L \<longleftrightarrow> ?R")
proof
  from diw_delimiter[OF diw] obtain ds where ds: "delimiter d = Some ds" by blast
  assume L: ?L
  obtain rows1 r1 where sc: "scan d w init_state input = (rows1, r1)"
    by (cases "scan d w init_state input")
  have "r1 = Inl (UnallowedQuoteError msg l c i) \<and> rows1 = rows"
  proof (cases r1)
    case (Inl e)
    with L diw sc show ?thesis by (simp add: Reader_iter_def iter_from_def)
  next
    case (Inr s')
    with L diw sc finish_not_unallowed[of d w s' msg l c i] show ?thesis
      by (auto simp: Reader_iter_def iter_from_def split: prod.splits)
  qed
  with sc have sc': "scan d w init_state input = (rows, Inl (UnallowedQuoteError msg l c i))"
    by simp
  from scan_error_decomp[OF sc'] obtain p ch r s where
    x: "input = p @ ch # r" "scan d w init_state p = (rows, Inr s)"
       "step d w s ch = Inl (UnallowedQuoteError msg l c i)" by blast
  from scan_position[OF x(2)] have pos: "idx s = length p" "cur_line s = line_of p"
    "cur_char s = col_of p" by auto
  from x(3)[unfolded step_Inl[OF ds]] pos
  have "((mode s = MODE_INSIDE \<and> is_quote d ch \<and> msg = ''Quote not allowed here'')
         \<or> (mode s = MODE_INSIDE_QUOTED_QUOTE \<and> \<not> is_quote d ch
              \<and> is_delimiter d ch = Inr False \<and> ch \<notin> set newlinechars
              \<and> msg = ''Single quote inside quoted field''))
      \<and> l = line_of (p @ [ch]) \<and> c = col_of (p @ [ch]) \<and> i = length p + 1"
    by (auto simp: line_of_snoc col_of_snoc)
  with x(1,2) show ?R by blast
next
  from diw_delimiter[OF diw] obtain ds where ds: "delimiter d = Some ds" by blast
  assume ?R
  then obtain p ch r s where
    x: "input = p @ ch # r" "scan d w init_state p = (rows, Inr s)"
    and y: "(mode s = MODE_INSIDE \<and> is_quote d ch \<and> msg = ''Quote not allowed here'')
         \<or> (mode s = MODE_INSIDE_QUOTED_QUOTE \<and> \<not> is_quote d ch
              \<and> is_delimiter d ch = Inr False \<and> ch \<notin> set newlinechars
              \<and> msg = ''Single quote inside quoted field'')"
    and z: "l = line_of (p @ [ch])" "c = col_of (p @ [ch])" "i = length p + 1" by blast
  from scan_position[OF x(2)] have pos: "idx s = length p" "cur_line s = line_of p"
    "cur_char s = col_of p" by auto
  have "step d w s ch = Inl (UnallowedQuoteError msg l c i)"
    unfolding step_Inl[OF ds] using y z pos by (auto simp: line_of_snoc col_of_snoc)
  then have "scan d w init_state input = (rows, Inl (UnallowedQuoteError msg l c i))"
    using x by (simp add: scan_append)
  then show ?L using diw by (simp add: Reader_iter_def iter_from_def)
qed

theorem C5_unallowed_quote_witness:
  "delimiter_is_whitespace DefaultDialect = Inr False
   \<and> Reader_iter DefaultDialect [CHR ''a'', DQ, CHR ''b'', CHR '','', CHR ''c'', NL] =
       ([], Some (UnallowedQuoteError ''Quote not allowed here'' 1 2 2))"
proof -
  let ?s = "\<lparr>mode = MODE_INSIDE, field = ''a'', line = [], cur_line = 1, cur_char = 1,
              idx = 1, last_quote_line = None, last_quote_char = None, last_quote_idx = None\<rparr>"
  have a: "delimiter_is_whitespace DefaultDialect = Inr False"
    by (simp add: reader_defs)
  have b: "scan DefaultDialect False init_state ''a'' = ([], Inr ?s)"
    by (simp add: reader_defs)
  have c: "is_quote DefaultDialect DQ" by (simp add: reader_defs)
  have p: "line_of [CHR ''a'', DQ] = 1" "col_of [CHR ''a'', DQ] = 2"
    by (simp_all add: line_of_def col_of_def count_newlines_def newlinechars_def)
  have "\<exists>p ch r s. [CHR ''a'', DQ, CHR ''b'', CHR '','', CHR ''c'', NL] = p @ ch # r
      \<and> scan DefaultDialect False init_state p = ([], Inr s)
      \<and> ((mode s = MODE_INSIDE \<and> is_quote DefaultDialect ch
            \<and> ''Quote not allowed here'' = ''Quote not allowed here'')
         \<or> (mode s = MODE_INSIDE_QUOTED_QUOTE \<and> \<not> is_quote DefaultDialect ch
              \<and> is_delimiter DefaultDialect ch = Inr False \<and> ch \<notin> set newlinechars
              \<and> ''Quote not allowed here'' = ''Single quote inside quoted field''))
      \<and> (1::nat) = line_of (p @ [ch]) \<and> (2::nat) = col_of (p @ [ch]) \<and> (2::nat) = length p + 1"
    apply (rule exI[of _ "''a''"], rule exI[of _ DQ], rule exI[of _ "[CHR ''b'', CHR '','', CHR ''c'', NL]"],
           rule exI[of _ ?s])
    using b c p by simp
  with C5_unallowed_quote [OF a, of "[CHR ''a'', DQ, CHR ''b'', CHR '','', CHR ''c'', NL]" "[]"
      "''Quote not allowed here''" 1 2 2] a
  show ?thesis by blast
qed

text \<open>
  The claim as stated names a quote as the offending character in both cases. In the
  input \<open>"a"b\<close> the error is raised at the fourth character, \<open>b\<close>, which is not a
  quote; nothing is raised at the quote before it.
\<close>

theorem C5_counterexample:
  "Reader_iter DefaultDialect [DQ, CHR ''a'', DQ, CHR ''b''] =
     ([], Some (UnallowedQuoteError ''Single quote inside quoted field'' 1 4 4))
   \<and> [DQ, CHR ''a'', DQ, CHR ''b''] ! 3 = CHR ''b'' \<and> \<not> is_quote DefaultDialect (CHR ''b'')"
  by (simp add: reader_defs)

section \<open>The end of the stream\<close>

text \<open>
  Claim C6. When the stream ends in \<open>MODE_INSIDE_QUOTED_QUOTE\<close>, \<open>MODE_OUTSIDE\<close> or
  \<open>MODE_INSIDE\<close>, exactly one more line is flushed, so \<open>a,b\<close> without a final newline
  yields the line \<open>[a, b]\<close>; when it ends in \<open>MODE_FIRST\<close> or \<open>MODE_COMMENT\<close> nothing
  more is yielded, so the empty input yields no line and no error.
\<close>

theorem C6_end_of_stream:
  "(delimiter_is_whitespace d = Inr w \<and> scan d w init_state input = (rows, Inr s) \<longrightarrow>
      (mode s = MODE_INSIDE_QUOTED_QUOTE \<or> mode s = MODE_OUTSIDE \<or> mode s = MODE_INSIDE \<longrightarrow>
         Reader_iter d input = (rows @ [fst (yield_line d w s)], None))
    \<and> (mode s = MODE_FIRST \<or> mode s = MODE_COMMENT \<longrightarrow> Reader_iter d input = (rows, None)))
   \<and> Reader_iter DefaultDialect ''a,b'' = ([\<lparr>line_fields = [''a'', ''b''], lineno = 1\<rparr>], None)
   \<and> Reader_iter DefaultDialect [] = ([], None)"
proof -
  have "Reader_iter DefaultDialect ''a,b'' = ([\<lparr>line_fields = [''a'', ''b''], lineno = 1\<rparr>], None)"
    by (simp add: reader_defs)
  moreover have "Reader_iter DefaultDialect [] = ([], None)"
    by (simp add: reader_defs)
  ultimately show ?thesis
    by (auto simp: Reader_iter_def iter_from_def finish_def)
qed

theorem C6_end_of_stream_witness:
  "delimiter_is_whitespace DefaultDialect = Inr False
   \<and> scan DefaultDialect False init_state ''a,b'' =
       ([], Inr \<lparr>mode = MODE_INSIDE, field = ''b'', line = [''a''], cur_line = 1, cur_char = 3,
                idx = 3, last_quote_line = None, last_quote_char = None, last_quote_idx = None\<rparr>)
   \<and> Reader_iter DefaultDialect ''a,b'' = ([\<lparr>line_fields = [''a'', ''b''], lineno = 1\<rparr>], None)"
proof -
  let ?s = "\<lparr>mode = MODE_INSIDE, field = ''b'', line = [''a''], cur_line = 1, cur_char = 3,
                idx = 3, last_quote_line = None, last_quote_char = None, last_quote_idx = None\<rparr>"
  have a: "delimiter_is_whitespace DefaultDialect = Inr False"
    by (simp add: reader_defs)
  have b: "scan DefaultDialect False init_state ''a,b'' = ([], Inr ?s)"
    by (simp add: reader_defs)
  have c: "fst (yield_line DefaultDialect False ?s) = \<lparr>line_fields = [''a'', ''b''], lineno = 1\<rparr>"
    by (simp add: reader_defs)
  from C6_end_of_stream [of DefaultDialect False "''a,b''" "[]" ?s] a b c
  show ?thesis by simp
qed

section \<open>Construction\<close>

text \<open>
  Claim C7. \<open>reader(stream, dialect)\<close> uses the default dialect when the dialect is
  omitted or \<open>None\<close>, raises \<open>UnknownDialectError\<close> for an unknown name, raises
  \<open>InvalidDialectError\<close> for any value that is not a dialect, and constructs a reader
  from a dialect, all before a character is read.

  A class that does not derive from \<open>Dialect\<close> is rejected with \<open>InvalidDialectError\<close>,
  but a value that is not a class makes \<open>issubclass\<close> itself raise \<open>TypeError\<close>.
\<close>

theorem C7_non_class_raises_TypeError:
  "reader file PyNonClass = Inl TypeError
   \<and> reader file PyOtherClass = Inl InvalidDialectError
   \<and> reader file (PyStr ''notknown'') = Inl (UnknownDialectError ''notknown'')
   \<and> reader file PyNone =
       Inr \<lparr>line_num = 0, Reader_dialect = DefaultDialect, Reader_file = file, Reader_debug = False\<rparr>
   \<and> reader file (PyStr ''whitespace'') =
       Inr \<lparr>line_num = 0, Reader_dialect = WhitespaceDialect, Reader_file = file, Reader_debug = False\<rparr>
   \<and> reader file (PyDialectClass d) =
       Inr \<lparr>line_num = 0, Reader_dialect = d, Reader_file = file, Reader_debug = False\<rparr>"
  by (simp add: reader_def Reader_init_def known_dialects_def)

section \<open>Quoted fields\<close>

lemma step_quoted_other:
  "mode s = MODE_INSIDE_QUOTED \<Longrightarrow> \<not> is_quote d c \<Longrightarrow>
   step d w s c = Inr ([], (advance s c)\<lparr>field := field s @ [c]\<rparr>)"
  by (simp add: step_def Let_def)

lemma step_quoted_quote:
  "mode s = MODE_INSIDE_QUOTED \<Longrightarrow> is_quote d c \<Longrightarrow>
   step d w s c = Inr ([], (advance s c)\<lparr>mode := MODE_INSIDE_QUOTED_QUOTE\<rparr>)"
  by (simp add: step_def Let_def)

lemma step_qq_quote:
  "mode s = MODE_INSIDE_QUOTED_QUOTE \<Longrightarrow> is_quote d c \<Longrightarrow>
   step d w s c = Inr ([], (advance s c)\<lparr>field := field s @ [c], mode := MODE_INSIDE_QUOTED\<rparr>)"
  by (simp add: step_def Let_def)

lemma scan_quoted_body:
  assumes q: "is_quote d q" "q \<notin> set newlinechars"
  shows "mode s = MODE_INSIDE_QUOTED \<Longrightarrow>
    \<exists>s'. scan d w s (concat (map (\<lambda>c. if c = q then [q, q] else [c]) body)) = ([], Inr s')
       \<and> mode s' = MODE_INSIDE_QUOTED \<and> field s' = field s @ body \<and> line s' = line s
       \<and> cur_line s' = cur_line s + count_newlines body"
proof (induction body arbitrary: s)
  case Nil
  then show ?case by (simp add: count_newlines_def)
next
  case (Cons c cs)
  show ?case
  proof (cases "c = q")
    case True
    let ?s1 = "(advance s q)\<lparr>mode := MODE_INSIDE_QUOTED_QUOTE\<rparr>"
    let ?s2 = "(advance ?s1 q)\<lparr>field := field ?s1 @ [q], mode := MODE_INSIDE_QUOTED\<rparr>"
    have 1: "step d w s q = Inr ([], ?s1)" using Cons.prems q by (simp add: step_quoted_quote)
    have 2: "step d w ?s1 q = Inr ([], ?s2)" using q by (simp add: step_qq_quote)
    have m: "mode ?s2 = MODE_INSIDE_QUOTED" by simp
    from Cons.IH[OF m] obtain s' where
      s': "scan d w ?s2 (concat (map (\<lambda>c. if c = q then [q, q] else [c]) cs)) = ([], Inr s')"
        "mode s' = MODE_INSIDE_QUOTED" "field s' = field ?s2 @ cs" "line s' = line ?s2"
        "cur_line s' = cur_line ?s2 + count_newlines cs" by blast
    show ?thesis using True 1 2 s' q by (simp add: count_newlines_def)
  next
    case False
    then have nq: "\<not> is_quote d c" using q by (auto simp: is_quote_def split: option.splits)
    let ?s1 = "(advance s c)\<lparr>field := field s @ [c]\<rparr>"
    have 1: "step d w s c = Inr ([], ?s1)" using Cons.prems nq by (simp add: step_quoted_other)
    have m: "mode ?s1 = MODE_INSIDE_QUOTED" using Cons.prems by simp
    from Cons.IH[OF m] obtain s' where
      s': "scan d w ?s1 (concat (map (\<lambda>c. if c = q then [q, q] else [c]) cs)) = ([], Inr s')"
        "mode s' = MODE_INSIDE_QUOTED" "field s' = field ?s1 @ cs" "line s' = line ?s1"
        "cur_line s' = cur_line ?s1 + count_newlines cs" by blast
    show ?thesis using False 1 s' by (simp add: count_newlines_def)
  qed
qed

text \<open>
  Claim C8. For every string \<open>s\<close>, wrapping \<open>s\<close> in quote characters after doubling
  each quote character in it, and reading the result, gives back one line with the one
  field \<open>s\<close>, unchanged and untrimmed, whatever delimiter, quote and newline characters
  \<open>s\<close> holds. The dialect is any one whose quote character can open a field: it is not
  a newline, a left-trim or a comment character.
\<close>

theorem C8_quoted_roundtrip:
  assumes diw: "delimiter_is_whitespace d = Inr w"
    and q: "is_quote d q"
    and nn: "q \<notin> set newlinechars"
    and nl: "\<not> is_ignore_left d q"
    and nc: "\<not> is_comment d q"
  shows "Reader_iter d (spec_quote_field q s) =
           ([\<lparr>line_fields = [s], lineno = 1 + count_newlines s\<rparr>], None)"
proof -
  let ?s1 = "(advance init_state q)\<lparr>mode := MODE_INSIDE_QUOTED,
                last_quote_line := Some (cur_line (advance init_state q)),
                last_quote_char := Some (cur_char (advance init_state q)),
                last_quote_idx := Some (idx (advance init_state q))\<rparr>"
  have 1: "step d w init_state q = Inr ([], ?s1)"
    using q nn nl nc by (simp add: step_def Let_def init_state_def)
  have m: "mode ?s1 = MODE_INSIDE_QUOTED" by simp
  from scan_quoted_body[OF q nn m, of w s] obtain s2 where
    s2: "scan d w ?s1 (concat (map (\<lambda>c. if c = q then [q, q] else [c]) s)) = ([], Inr s2)"
      "mode s2 = MODE_INSIDE_QUOTED" "field s2 = field ?s1 @ s" "line s2 = line ?s1"
      "cur_line s2 = cur_line ?s1 + count_newlines s" by blast
  let ?s3 = "(advance s2 q)\<lparr>mode := MODE_INSIDE_QUOTED_QUOTE\<rparr>"
  have 3: "step d w s2 q = Inr ([], ?s3)" using s2 q by (simp add: step_quoted_quote)
  have sc: "scan d w init_state (spec_quote_field q s) = ([], Inr ?s3)"
    using 1 s2(1) 3 by (simp add: spec_quote_field_def scan_append)
  have f: "finish d w ?s3 = ([\<lparr>line_fields = [s], lineno = 1 + count_newlines s\<rparr>], None)"
    using s2 nn by (simp add: finish_def yield_line_def next_field_def init_state_def)
  show ?thesis using diw sc f by (simp add: Reader_iter_def iter_from_def)
qed

theorem C8_quoted_roundtrip_witness:
  "delimiter_is_whitespace DefaultDialect = Inr False \<and> is_quote DefaultDialect DQ
   \<and> DQ \<notin> set newlinechars \<and> \<not> is_ignore_left DefaultDialect DQ \<and> \<not> is_comment DefaultDialect DQ
   \<and> spec_quote_field DQ ([CHR '' '', CHR ''a'', CHR '','', DQ, CHR ''b'', NL, CHR ''c'', CHR '' ''])
       = [DQ, CHR '' '', CHR ''a'', CHR '','', DQ, DQ, CHR ''b'', NL, CHR ''c'', CHR '' '', DQ]
   \<and> Reader_iter DefaultDialect
       [DQ, CHR '' '', CHR ''a'', CHR '','', DQ, DQ, CHR ''b'', NL, CHR ''c'', CHR '' '', DQ] =
       ([\<lparr>line_fields = [[CHR '' '', CHR ''a'', CHR '','', DQ, CHR ''b'', NL, CHR ''c'', CHR '' '']],
          lineno = 2\<rparr>], None)"
proof -
  have h: "delimiter_is_whitespace DefaultDialect = Inr False" "is_quote DefaultDialect DQ"
    "DQ \<notin> set newlinechars" "\<not> is_ignore_left DefaultDialect DQ" "\<not> is_comment DefaultDialect DQ"
    by (simp_all add: reader_defs)
  from C8_quoted_roundtrip [OF h, of "[CHR '' '', CHR ''a'', CHR '','', DQ, CHR ''b'', NL, CHR ''c'', CHR '' '']"] h
  show ?thesis by (simp add: spec_quote_field_def count_newlines_def newlinechars_def)
qed

section \<open>Comment lines\<close>

lemma step_comment_other:
  "mode s = MODE_COMMENT \<Longrightarrow> c \<notin> set newlinechars \<Longrightarrow> step d w s c = Inr ([], advance s c)"
  by (simp add: step_def Let_def)

lemma scan_comment_body:
  "mode s = MODE_COMMENT \<Longrightarrow> \<forall>x\<in>set body. x \<notin> set newlinechars \<Longrightarrow>
   scan d w s body = ([], Inr (s\<lparr>cur_char := cur_char s + length body, idx := idx s + length body\<rparr>))"
proof (induction body arbitrary: s)
  case Nil
  then show ?case by simp
next
  case (Cons c cs)
  have m: "mode (advance s c) = MODE_COMMENT" using Cons.prems by simp
  have r: "\<forall>x\<in>set cs. x \<notin> set newlinechars" using Cons.prems by simp
  have c: "c \<notin> set newlinechars" using Cons.prems by simp
  show ?case
    using Cons.IH[OF m r] c Cons.prems(1)
    by (simp add: step_comment_other advance_def Let_def)
qed

lemma scan_comment_line:
  assumes m: "mode s = MODE_FIRST"
    and cm: "is_comment d c" and cn: "c \<notin> set newlinechars" and cl: "\<not> is_ignore_left d c"
    and b: "\<forall>x\<in>set body. x \<notin> set newlinechars"
    and n: "n \<in> set newlinechars"
  shows "scan d w s (c # body @ [n]) =
           ([], Inr (s\<lparr>cur_line := cur_line s + 1, cur_char := 0, idx := idx s + length body + 2\<rparr>))"
proof -
  let ?s1 = "(advance s c)\<lparr>mode := MODE_COMMENT\<rparr>"
  have 1: "step d w s c = Inr ([], ?s1)"
    using m cm cn cl by (simp add: step_def Let_def)
  have m1: "mode ?s1 = MODE_COMMENT" by simp
  let ?s2 = "?s1\<lparr>cur_char := cur_char ?s1 + length body, idx := idx ?s1 + length body\<rparr>"
  have 2: "scan d w ?s1 body = ([], Inr ?s2)" by (rule scan_comment_body[OF m1 b])
  have 3: "step d w ?s2 n = Inr ([], (advance ?s2 n)\<lparr>mode := MODE_FIRST\<rparr>)"
    using n by (simp add: step_def Let_def)
  have 4: "(advance ?s2 n)\<lparr>mode := MODE_FIRST\<rparr> =
      s\<lparr>cur_line := cur_line s + 1, cur_char := 0, idx := idx s + length body + 2\<rparr>"
    using m n cn by (cases s) (simp add: advance_def Let_def)
  have "scan d w s ([c] @ body @ [n]) = ([], Inr ((advance ?s2 n)\<lparr>mode := MODE_FIRST\<rparr>))"
    unfolding scan_append using 1 2 3 by simp
  then show ?thesis using 4 by simp
qed

lemma scan_blank_line:
  assumes m: "mode s = MODE_FIRST" and n: "n \<in> set newlinechars"
  shows "scan d w s [n] = ([], Inr (s\<lparr>cur_line := cur_line s + 1, cur_char := 0, idx := idx s + 1\<rparr>))"
  using m n by (cases s) (simp add: step_def Let_def advance_def)

lemma step_idx_equiv:
  assumes "idx_equiv s t"
  shows "(case step d w s c of
            Inl e \<Rightarrow> (\<exists>e'. step d w t c = Inl e')
          | Inr (out, s') \<Rightarrow> (\<exists>t'. step d w t c = Inr (out, t') \<and> idx_equiv s' t'))"
  using assms
  by (cases "mode s")
     (auto simp: step_def Let_def emit_def yield_line_def next_field_def idx_equiv_def
           is_delimiter_def split: if_splits option.splits bool.splits)

lemma scan_idx_equiv:
  "idx_equiv s t \<Longrightarrow>
     fst (scan d w s xs) = fst (scan d w t xs)
     \<and> (case snd (scan d w s xs) of
          Inl e \<Rightarrow> (\<exists>e'. snd (scan d w t xs) = Inl e')
        | Inr s' \<Rightarrow> (\<exists>t'. snd (scan d w t xs) = Inr t' \<and> idx_equiv s' t'))"
proof (induction xs arbitrary: s t)
  case Nil
  then show ?case by simp
next
  case (Cons c cs)
  show ?case
  proof (cases "step d w s c")
    case (Inl e)
    with step_idx_equiv[OF Cons.prems, of d w c] show ?thesis by auto
  next
    case (Inr x)
    obtain out s1 where x: "x = (out, s1)" by (cases x)
    from step_idx_equiv[OF Cons.prems, of d w c] Inr x obtain t1 where
      t1: "step d w t c = Inr (out, t1)" "idx_equiv s1 t1" by auto
    from Cons.IH[OF t1(2)] Inr x t1(1) show ?thesis
      by (auto split: prod.splits sum.splits)
  qed
qed

lemma finish_idx_equiv:
  "idx_equiv s t \<Longrightarrow> fst (finish d w s) = fst (finish d w t)"
  by (auto simp: finish_def idx_equiv_def yield_line_def next_field_def Let_def)

lemma iter_from_idx_equiv:
  assumes "idx_equiv s t"
  shows "fst (iter_from d w s xs) = fst (iter_from d w t xs)"
proof -
  obtain rows r where a: "scan d w s xs = (rows, r)" by (cases "scan d w s xs")
  obtain rows' r' where b: "scan d w t xs = (rows', r')" by (cases "scan d w t xs")
  have e: "rows = rows'" using scan_idx_equiv[OF assms, of d w xs] a b by simp
  have c: "(case r of Inl e \<Rightarrow> (\<exists>e'. r' = Inl e') | Inr s' \<Rightarrow> (\<exists>t'. r' = Inr t' \<and> idx_equiv s' t'))"
    using scan_idx_equiv[OF assms, of d w xs] a b by (auto split: sum.splits)
  show ?thesis
  proof (cases r)
    case (Inl e1)
    with c obtain e' where "r' = Inl e'" by auto
    with Inl a b e show ?thesis by (simp add: iter_from_def)
  next
    case (Inr s')
    with c obtain t' where t': "r' = Inr t'" "idx_equiv s' t'" by auto
    from finish_idx_equiv[OF t'(2), of d w] Inr t' a b e show ?thesis
      by (auto simp: iter_from_def split: prod.splits)
  qed
qed

text \<open>
  Claim C9, as amended. When the machine is at the start of a line (\<open>MODE_FIRST\<close>, so
  not inside a quoted field) and the line begins with the comment character, which is
  neither a newline nor a left-trim character, the characters of the line up to and
  including its newline are discarded: no line is yielded, no field is collected, and
  the machine is back at the start of a line with the line counter advanced by one.
  The lines yielded, with their line numbers, are those of the same input with the
  comment line replaced by an empty line.
\<close>

theorem C9_comment_line:
  assumes diw: "delimiter_is_whitespace d = Inr w"
    and pre: "scan d w init_state pre = (rows0, Inr s)"
    and m: "mode s = MODE_FIRST"
    and cm: "is_comment d c" and cn: "c \<notin> set newlinechars" and cl: "\<not> is_ignore_left d c"
    and b: "\<forall>x\<in>set body. x \<notin> set newlinechars"
    and n: "n \<in> set newlinechars"
  shows "scan d w s (c # body @ [n]) =
           ([], Inr (s\<lparr>cur_line := cur_line s + 1, cur_char := 0, idx := idx s + length body + 2\<rparr>))
         \<and> fst (Reader_iter d (pre @ c # body @ n # rest)) = fst (Reader_iter d (pre @ n # rest))"
proof -
  let ?t = "s\<lparr>cur_line := cur_line s + 1, cur_char := 0, idx := idx s + length body + 2\<rparr>"
  let ?u = "s\<lparr>cur_line := cur_line s + 1, cur_char := 0, idx := idx s + 1\<rparr>"
  have 1: "scan d w s (c # body @ [n]) = ([], Inr ?t)"
    by (rule scan_comment_line[OF m cm cn cl b n])
  have 2: "scan d w s [n] = ([], Inr ?u)" by (rule scan_blank_line[OF m n])
  have a: "scan d w init_state (pre @ c # body @ [n]) = (rows0, Inr ?t)"
    unfolding scan_append using pre 1 by simp
  have b: "scan d w init_state (pre @ [n]) = (rows0, Inr ?u)"
    unfolding scan_append using pre 2 by simp
  have e: "idx_equiv ?t ?u" by (simp add: idx_equiv_def)
  have "fst (iter_from d w init_state ((pre @ c # body @ [n]) @ rest))
      = rows0 @ fst (iter_from d w ?t rest)" by (rule iter_from_append[OF a])
  moreover have "fst (iter_from d w init_state ((pre @ [n]) @ rest))
      = rows0 @ fst (iter_from d w ?u rest)" by (rule iter_from_append[OF b])
  ultimately have "fst (iter_from d w init_state (pre @ c # body @ n # rest))
      = fst (iter_from d w init_state (pre @ n # rest))"
    using iter_from_idx_equiv[OF e, of d w rest] by simp
  with 1 diw show ?thesis by (simp add: Reader_iter_def)
qed

theorem C9_comment_line_witness:
  "delimiter_is_whitespace DefaultDialect = Inr False
   \<and> scan DefaultDialect False init_state (''a'' @ [NL]) =
       ([\<lparr>line_fields = [''a''], lineno = 2\<rparr>],
        Inr \<lparr>mode = MODE_FIRST, field = [], line = [], cur_line = 2, cur_char = 0,
             idx = 2, last_quote_line = None, last_quote_char = None, last_quote_idx = None\<rparr>)
   \<and> is_comment DefaultDialect (CHR ''#'') \<and> NL \<in> set newlinechars
   \<and> fst (Reader_iter DefaultDialect (''a'' @ [NL] @ ''#x,y'' @ [NL] @ ''b'' @ [NL]))
       = fst (Reader_iter DefaultDialect (''a'' @ [NL] @ [NL] @ ''b'' @ [NL]))
   \<and> fst (Reader_iter DefaultDialect (''a'' @ [NL] @ ''#x,y'' @ [NL] @ ''b'' @ [NL]))
       = [\<lparr>line_fields = [''a''], lineno = 2\<rparr>, \<lparr>line_fields = [''b''], lineno = 4\<rparr>]"
proof -
  let ?s = "\<lparr>mode = MODE_FIRST, field = [], line = [], cur_line = 2, cur_char = 0,
             idx = 2, last_quote_line = None, last_quote_char = None, last_quote_idx = None\<rparr>"
  have a: "delimiter_is_whitespace DefaultDialect = Inr False" by (simp add: reader_defs)
  have b: "scan DefaultDialect False init_state (''a'' @ [NL]) =
       ([\<lparr>line_fields = [''a''], lineno = 2\<rparr>], Inr ?s)" by (simp add: reader_defs)
  have c: "mode ?s = MODE_FIRST" by simp
  have d: "is_comment DefaultDialect (CHR ''#'')" "CHR ''#'' \<notin> set newlinechars"
    "\<not> is_ignore_left DefaultDialect (CHR ''#'')" "\<forall>x\<in>set ''x,y''. x \<notin> set newlinechars"
    "NL \<in> set newlinechars"
    by (simp_all add: reader_defs)
  have e: "fst (Reader_iter DefaultDialect (''a'' @ [NL] @ [NL] @ ''b'' @ [NL]))
       = [\<lparr>line_fields = [''a''], lineno = 2\<rparr>, \<lparr>line_fields = [''b''], lineno = 4\<rparr>]"
    by (simp add: reader_defs)
  from C9_comment_line [OF a b c d, of "''b'' @ [NL]"] a b d(1,5) e
  show ?thesis by simp
qed

text \<open>
  The claim as stated speaks of any line whose first character is the comment
  character. Inside a quoted field a newline is content, and so is a following line
  that begins with the comment character: its characters are kept in the field.
\<close>

theorem C9_counterexample:
  "Reader_iter DefaultDialect ([DQ, CHR ''x'', NL] @ [CHR ''#'', CHR ''y'', DQ, NL]) =
     ([\<lparr>line_fields = [[CHR ''x'', NL, CHR ''#'', CHR ''y'']], lineno = 3\<rparr>], None)
   \<and> is_comment DefaultDialect (CHR ''#'')"
  by (simp add: reader_defs)

section \<open>No empty line\<close>

lemma step_line_inv:
  assumes "step d w s c = Inr (out, s')" "line_inv s"
  shows "line_inv s' \<and> (\<forall>r\<in>set out. line_fields r \<noteq> [])"
  using assms
  by (auto simp: step_def Let_def emit_def yield_line_def next_field_def line_inv_def
      split: if_splits sum.splits bool.splits)

lemma scan_line_inv:
  "line_inv s \<Longrightarrow> scan d w s xs = (rows, r) \<Longrightarrow>
     (\<forall>x\<in>set rows. line_fields x \<noteq> []) \<and> (\<forall>s'. r = Inr s' \<longrightarrow> line_inv s')"
proof (induction xs arbitrary: s rows r)
  case Nil
  then show ?case by auto
next
  case (Cons c cs)
  show ?case
  proof (cases "step d w s c")
    case (Inl e)
    with Cons.prems show ?thesis by auto
  next
    case (Inr p)
    obtain out s1 where p: "p = (out, s1)" by (cases p)
    obtain rows1 r1 where sc: "scan d w s1 cs = (rows1, r1)" by (cases "scan d w s1 cs")
    from step_line_inv[OF Inr[unfolded p] Cons.prems(1)]
    have i1: "line_inv s1" and o: "\<forall>r\<in>set out. line_fields r \<noteq> []" by auto
    from Cons.IH[OF i1 sc] Cons.prems(2) Inr p sc o show ?thesis by auto
  qed
qed

lemma finish_line_inv:
  "line_inv s \<Longrightarrow> \<forall>x\<in>set (fst (finish d w s)). line_fields x \<noteq> []"
  by (auto simp: finish_def yield_line_def next_field_def line_inv_def Let_def)

text \<open>
  Claim C10. For every input and every dialect, each line yielded holds at least one
  field, and a newline read at the start of a line yields nothing.
\<close>

theorem C10_rows_nonempty:
  "(\<forall>r\<in>set (fst (Reader_iter d input)). line_fields r \<noteq> [])
   \<and> (mode s = MODE_FIRST \<and> c \<in> set newlinechars \<longrightarrow> (\<exists>s'. step d w s c = Inr ([], s')))"
proof
  show "\<forall>r\<in>set (fst (Reader_iter d input)). line_fields r \<noteq> []"
  proof (cases "delimiter_is_whitespace d")
    case (Inl e)
    then show ?thesis by (simp add: Reader_iter_def)
  next
    case (Inr w)
    have i: "line_inv init_state" by (simp add: line_inv_def init_state_def)
    obtain rows r where sc: "scan d w init_state input = (rows, r)"
      by (cases "scan d w init_state input")
    from scan_line_inv[OF i sc] finish_line_inv[of _ d w]
    show ?thesis using Inr sc
      by (auto simp: Reader_iter_def iter_from_def split: sum.splits prod.splits)
  qed
  show "mode s = MODE_FIRST \<and> c \<in> set newlinechars \<longrightarrow> (\<exists>s'. step d w s c = Inr ([], s'))"
    by (simp add: step_def Let_def)
qed

theorem C10_rows_nonempty_witness:
  "fst (Reader_iter DefaultDialect (''a,'' @ [NL, NL] @ ''b'')) =
     [\<lparr>line_fields = [''a'', ''''], lineno = 2\<rparr>, \<lparr>line_fields = [''b''], lineno = 3\<rparr>]
   \<and> line_fields (hd (fst (Reader_iter DefaultDialect (''a,'' @ [NL, NL] @ ''b''))))
       = [''a'', '''']
   \<and> mode init_state = MODE_FIRST \<and> NL \<in> set newlinechars
   \<and> (\<exists>s'. step DefaultDialect False init_state NL = Inr ([], s'))"
proof -
  have a: "fst (Reader_iter DefaultDialect (''a,'' @ [NL, NL] @ ''b'')) =
     [\<lparr>line_fields = [''a'', ''''], lineno = 2\<rparr>, \<lparr>line_fields = [''b''], lineno = 3\<rparr>]"
    by (simp add: reader_defs)
  have b: "mode init_state = MODE_FIRST" "NL \<in> set newlinechars"
    by (simp_all add: init_state_def newlinechars_def)
  from C10_rows_nonempty [of DefaultDialect "''a,'' @ [NL, NL] @ ''b''" init_state NL False] a b
  show ?thesis by simp
qed

end
